theory Spec2Isabelle
  imports Complex_Main "HOL-Library.Word" "HOL-Library.AList"
begin

section \<open>Python values shared by both modules\<close>

text \<open>
  The exceptions the two modules can raise.  Every function that can raise returns
  a sum: \<open>Inl e\<close> is the exception \<open>e\<close>, \<open>Inr v\<close> the returned value.
\<close>

datatype error =
    TypeError
  | KeyError
  | ValueError
  | IndexError
  | UnboundLocalError
  | ZeroDivisionError
  | UnicodeDecodeError

text \<open>
  A byte string is a list of 8-bit words.  \<open>sys.byteorder\<close> of the machine that
  runs the subscriber is a parameter of the codec, since \<open>array\<close> stores its items
  in the byte order of the host.
\<close>

type_synonym byte = "8 word"

datatype byteorder = Little | Big

text \<open>
  A timestamp as it occurs at run time.  \<open>deserialize_utcdatetime\<close> returns a Python
  float (seconds since the epoch; the quotient is kept exact here, its rounding to a
  double is not modelled).  The methods of \<open>Subscriber\<close> subtract the stored timestamp
  from \<open>datetime.utcnow()\<close>, which Python defines for a \<open>datetime\<close> only; a datetime
  is its number of microseconds since the epoch.
\<close>

datatype timestamp = Float_seconds rat | Datetime int

type_synonym iso_pair = "string \<times> string"

text \<open>
  A Python dict is an association list with distinct keys in insertion order:
  \<open>map_of\<close> is the lookup, \<open>AList.update\<close> is \<open>d[k] = v\<close> (in place for a key that
  is present, appended otherwise), \<open>AList.delete\<close> is \<open>del d[k]\<close>.
\<close>

type_synonym ('k, 'v) pydict = "('k \<times> 'v) list"

type_synonym 'p quotes = "(iso_pair, 'p \<times> timestamp) pydict"

section \<open>Module \<open>fxp_bytes_subscriber\<close>\<close>

definition MICROS_PER_SECOND :: nat where
  "MICROS_PER_SECOND = 1000000"

text \<open>The unsigned value of a byte string read most significant byte first.\<close>

definition be_value :: "byte list \<Rightarrow> nat" where
  "be_value bs = foldl (\<lambda>acc b. acc * 256 + unat b) 0 bs"

text \<open>An item of an \<open>array\<close> is read in the byte order of the host.\<close>

definition native_value :: "byteorder \<Rightarrow> byte list \<Rightarrow> nat" where
  "native_value host bs = (case host of Big \<Rightarrow> be_value bs | Little \<Rightarrow> be_value (rev bs))"

text \<open>
  An \<open>array\<close> is the list of its items, each item the bytes it occupies in memory.
  \<open>frombytes\<close> raises \<open>ValueError\<close> unless the length of the bytes is a multiple of
  the item size; \<open>byteswap\<close> reverses the bytes of every item; \<open>a[0]\<close> raises
  \<open>IndexError\<close> on an array without items.
\<close>

fun items_of :: "nat \<Rightarrow> nat \<Rightarrow> byte list \<Rightarrow> byte list list" where
  "items_of itemsize 0 bs = []"
| "items_of itemsize (Suc n) bs = take itemsize bs # items_of itemsize n (drop itemsize bs)"

definition frombytes :: "nat \<Rightarrow> byte list \<Rightarrow> error + byte list list" where
  "frombytes itemsize bs =
     (if length bs mod itemsize \<noteq> 0 then Inl ValueError
      else Inr (items_of itemsize (length bs div itemsize) bs))"

definition byteswap :: "byte list list \<Rightarrow> byte list list" where
  "byteswap a = map rev a"

definition getitem0 :: "'a list \<Rightarrow> error + 'a" where
  "getitem0 a = (case a of [] \<Rightarrow> Inl IndexError | x # _ \<Rightarrow> Inr x)"

text \<open>
  \<open>deserialize_price\<close>: the price is the single-precision float whose bit pattern is
  the returned 32-bit word (Python widens it to a double without changing its value).
  There is no \<open>byteswap\<close>: the four bytes are read in the byte order of the host.
\<close>

definition deserialize_price :: "byteorder \<Rightarrow> byte list \<Rightarrow> error + 32 word" where
  "deserialize_price host byte_data =
     (case frombytes 4 byte_data of
        Inl e \<Rightarrow> Inl e
      | Inr a \<Rightarrow> (case getitem0 a of
                    Inl e \<Rightarrow> Inl e
                  | Inr x \<Rightarrow> Inr (word_of_nat (native_value host x))))"

text \<open>
  \<open>deserialize_utcdatetime\<close>: the eight bytes are swapped, then read in the byte order
  of the host; the result is \<open>micros / MICROS_PER_SECOND\<close>, a float.
\<close>

definition deserialize_micros :: "byteorder \<Rightarrow> byte list \<Rightarrow> error + nat" where
  "deserialize_micros host byte_data =
     (case frombytes 8 byte_data of
        Inl e \<Rightarrow> Inl e
      | Inr a \<Rightarrow> (case getitem0 (byteswap a) of
                    Inl e \<Rightarrow> Inl e
                  | Inr x \<Rightarrow> Inr (native_value host x)))"

definition deserialize_utcdatetime :: "byteorder \<Rightarrow> byte list \<Rightarrow> error + timestamp" where
  "deserialize_utcdatetime host byte_data =
     (case deserialize_micros host byte_data of
        Inl e \<Rightarrow> Inl e
      | Inr micros \<Rightarrow> Inr (Float_seconds (of_nat micros / of_nat MICROS_PER_SECOND)))"

text \<open>A slice \<open>b[i:j]\<close> of a byte string, with Python's clamping at the end.\<close>

definition list_slice :: "nat \<Rightarrow> nat \<Rightarrow> 'a list \<Rightarrow> 'a list" where
  "list_slice i j xs = take (j - i) (drop i xs)"

text \<open>\<open>split_quotes\<close>: the full 32-byte chunks, then the remaining bytes if there are any.\<close>

definition split_quotes :: "byte list \<Rightarrow> byte list list" where
  "split_quotes binary_string =
     (let quotes_size = 32;
          quotes_count = length binary_string div quotes_size;
          quotes_list = map (\<lambda>i. list_slice (i * quotes_size) (i * quotes_size + quotes_size) binary_string)
                            [0..<quotes_count]
      in if length binary_string mod quotes_size \<noteq> 0
         then quotes_list @ [drop (quotes_count * quotes_size) binary_string]
         else quotes_list)"

text \<open>\<open>bytes.decode('ascii')\<close>: a byte above 127 raises.\<close>

definition decode_ascii :: "byte list \<Rightarrow> error + string" where
  "decode_ascii bs =
     (if \<forall>b \<in> set bs. unat b < 128 then Inr (map (\<lambda>b. char_of (unat b)) bs)
      else Inl UnicodeDecodeError)"

text \<open>The body of the loop of \<open>parse_quotes\<close>: the key and the value decoded from one chunk.\<close>

definition parse_quote :: "byteorder \<Rightarrow> byte list \<Rightarrow> error + (iso_pair \<times> (32 word \<times> timestamp))" where
  "parse_quote host quote =
     (case decode_ascii (list_slice 0 3 quote) of
        Inl e \<Rightarrow> Inl e
      | Inr base \<Rightarrow>
     (case decode_ascii (list_slice 3 6 quote) of
        Inl e \<Rightarrow> Inl e
      | Inr quoted \<Rightarrow>
     (case deserialize_price host (list_slice 6 10 quote) of
        Inl e \<Rightarrow> Inl e
      | Inr price \<Rightarrow>
     (case deserialize_utcdatetime host (list_slice 10 18 quote) of
        Inl e \<Rightarrow> Inl e
      | Inr timestamp \<Rightarrow> Inr ((base, quoted), (price, timestamp))))))"

fun parse_quotes_loop ::
  "byteorder \<Rightarrow> 32 word quotes \<Rightarrow> byte list list \<Rightarrow> error + 32 word quotes" where
  "parse_quotes_loop host quotes_dict [] = Inr quotes_dict"
| "parse_quotes_loop host quotes_dict (quote # rest) =
     (case parse_quote host quote of
        Inl e \<Rightarrow> Inl e
      | Inr (iso_pair, v) \<Rightarrow> parse_quotes_loop host (AList.update iso_pair v quotes_dict) rest)"

definition parse_quotes :: "byteorder \<Rightarrow> byte list list \<Rightarrow> error + 32 word quotes" where
  "parse_quotes host binary_quotes_list = parse_quotes_loop host [] binary_quotes_list"

section \<open>Module \<open>forex_subscriber\<close>\<close>

text \<open>
  The attributes of a \<open>Subscriber\<close> that its methods read and write.  The queue is
  the list of snapshots put and not yet taken, oldest first.  The type \<open>'p\<close> is the
  type of prices, \<open>'w\<close> the type of edge weights.
\<close>

type_synonym 'w edge = "string \<times> string \<times> 'w"

record ('p, 'w) subscriber =
  quotes_dict :: "'p quotes"
  quotes_queue :: "'p quotes list"
  current_path :: "string list option"
  quotes_graph :: "'w edge list"

text \<open>
  \<open>a < b\<close> on two timestamps: Python compares two floats and two datetimes, and
  raises \<open>TypeError\<close> for a float and a datetime.
\<close>

fun ts_less :: "timestamp \<Rightarrow> timestamp \<Rightarrow> error + bool" where
  "ts_less (Float_seconds a) (Float_seconds b) = Inr (a < b)"
| "ts_less (Datetime a) (Datetime b) = Inr (a < b)"
| "ts_less (Float_seconds a) (Datetime b) = Inl TypeError"
| "ts_less (Datetime a) (Float_seconds b) = Inl TypeError"

text \<open>
  \<open>(current_time - timestamp).total_seconds()\<close>, with \<open>current_time\<close> a datetime:
  the difference of two datetimes is a \<open>timedelta\<close>; a datetime minus a float raises
  \<open>TypeError\<close>.
\<close>

fun age_seconds :: "int \<Rightarrow> timestamp \<Rightarrow> error + rat" where
  "age_seconds current_time (Datetime t) = Inr (of_int (current_time - t) / 1000000)"
| "age_seconds current_time (Float_seconds s) = Inl TypeError"

subsection \<open>\<open>update_quotes_dict\<close>\<close>

text \<open>
  The loop over \<open>new_quotes_dict.items()\<close>.  The dict is changed in place, so an
  exception leaves the entries merged before it; the result holds the exception (if
  any), the dict and the flag \<open>updated\<close>.
\<close>

fun update_loop ::
  "'p quotes \<Rightarrow> bool \<Rightarrow> 'p quotes \<Rightarrow> error option \<times> 'p quotes \<times> bool" where
  "update_loop qd updated [] = (None, qd, updated)"
| "update_loop qd updated ((iso_pair, (price, timestamp)) # rest) =
     (case map_of qd iso_pair of
        None \<Rightarrow> update_loop (AList.update iso_pair (price, timestamp) qd) True rest
      | Some stored \<Rightarrow>
          (case ts_less (snd stored) timestamp of
             Inl e \<Rightarrow> (Some e, qd, updated)
           | Inr newer \<Rightarrow>
               if newer then update_loop (AList.update iso_pair (price, timestamp) qd) True rest
               else update_loop qd updated rest))"

text \<open>
  The method has no \<open>return\<close> statement: a call that does not raise returns Python's
  \<open>None\<close>, which is the \<open>None\<close> of the result type \<open>bool option\<close>.
\<close>

definition update_quotes_dict ::
  "'p quotes \<Rightarrow> ('p, 'w) subscriber \<Rightarrow> (error + bool option) \<times> ('p, 'w) subscriber" where
  "update_quotes_dict new_quotes_dict self =
     (case update_loop (quotes_dict self) False new_quotes_dict of
        (Some e, qd, updated) \<Rightarrow> (Inl e, self\<lparr>quotes_dict := qd\<rparr>)
      | (None, qd, updated) \<Rightarrow>
          (Inr None,
           if updated then self\<lparr>quotes_dict := qd, quotes_queue := quotes_queue self @ [qd]\<rparr>
           else self\<lparr>quotes_dict := qd\<rparr>))"

subsection \<open>\<open>remove_stale_quotes\<close>\<close>

text \<open>The first loop collects the keys whose age is above 1.5 seconds.\<close>

fun stale_loop :: "int \<Rightarrow> iso_pair list \<Rightarrow> 'p quotes \<Rightarrow> error + iso_pair list" where
  "stale_loop current_time stale_pairs [] = Inr stale_pairs"
| "stale_loop current_time stale_pairs ((iso_pair, (price, timestamp)) # rest) =
     (case age_seconds current_time timestamp of
        Inl e \<Rightarrow> Inl e
      | Inr age \<Rightarrow>
          if age > 3 / 2 then stale_loop current_time (stale_pairs @ [iso_pair]) rest
          else stale_loop current_time stale_pairs rest)"

text \<open>\<open>del d[k]\<close> raises \<open>KeyError\<close> for a key that is absent.\<close>

definition delitem :: "'k \<Rightarrow> ('k, 'v) pydict \<Rightarrow> error + ('k, 'v) pydict" where
  "delitem k d = (if k \<in> fst ` set d then Inr (AList.delete k d) else Inl KeyError)"

fun delete_loop :: "'p quotes \<Rightarrow> iso_pair list \<Rightarrow> error option \<times> 'p quotes" where
  "delete_loop qd [] = (None, qd)"
| "delete_loop qd (iso_pair # rest) =
     (case delitem iso_pair qd of
        Inl e \<Rightarrow> (Some e, qd)
      | Inr qd' \<Rightarrow> delete_loop qd' rest)"

text \<open>\<open>current_time\<close> is the reading of \<open>datetime.utcnow()\<close> that the method takes first.\<close>

definition remove_stale_quotes ::
  "int \<Rightarrow> ('p, 'w) subscriber \<Rightarrow> (error + unit) \<times> ('p, 'w) subscriber" where
  "remove_stale_quotes current_time self =
     (case stale_loop current_time [] (quotes_dict self) of
        Inl e \<Rightarrow> (Inl e, self)
      | Inr stale_pairs \<Rightarrow>
          (case delete_loop (quotes_dict self) stale_pairs of
             (Some e, qd) \<Rightarrow> (Inl e, self\<lparr>quotes_dict := qd\<rparr>)
           | (None, qd) \<Rightarrow>
               (Inr (),
                if stale_pairs \<noteq> []
                then self\<lparr>quotes_dict := qd, quotes_queue := quotes_queue self @ [qd]\<rparr>
                else self\<lparr>quotes_dict := qd\<rparr>)))"

subsection \<open>\<open>update_graph\<close>\<close>

text \<open>
  Modelled from the spec: the module \<open>bellman_ford\<close> is not part of the sources.  A
  price graph is the list of its edges \<open>(u, v, weight)\<close>, and \<open>add_edge\<close> records one
  more edge; \<open>BellmanFord()\<close> is the graph without edges.
\<close>

definition add_edge :: "string \<Rightarrow> string \<Rightarrow> 'w \<Rightarrow> 'w edge list \<Rightarrow> 'w edge list" where
  "add_edge u v w g = g @ [(u, v, w)]"

text \<open>
  The loop over \<open>quotes.items()\<close>.  \<open>utcnow i\<close> is the reading of \<open>datetime.utcnow()\<close>
  in iteration \<open>i\<close> (the clock is read once for every quote).  \<open>log10\<close> stands for
  \<open>math.log10\<close>, which raises \<open>ValueError\<close> outside its domain; the weights are
  floats, of which only the negation is used.
\<close>

fun graph_loop ::
  "('p \<Rightarrow> error + 'w) \<Rightarrow> (nat \<Rightarrow> int) \<Rightarrow> nat \<Rightarrow> 'w edge list \<Rightarrow> 'p quotes
     \<Rightarrow> error + ('w::uminus) edge list" where
  "graph_loop log10 utcnow i new_graph [] = Inr new_graph"
| "graph_loop log10 utcnow i new_graph ((iso_pair, (price, timestamp)) # rest) =
     (case age_seconds (utcnow i) timestamp of
        Inl e \<Rightarrow> Inl e
      | Inr age \<Rightarrow>
          if age \<le> 3 / 2 then
            (case log10 price of
               Inl e \<Rightarrow> Inl e
             | Inr log_price \<Rightarrow>
                 graph_loop log10 utcnow (Suc i)
                   (add_edge (snd iso_pair) (fst iso_pair) log_price
                      (add_edge (fst iso_pair) (snd iso_pair) (- log_price) new_graph))
                   rest)
          else graph_loop log10 utcnow (Suc i) new_graph rest)"

subsection \<open>\<open>find_negative_cycle_path\<close>\<close>

text \<open>
  The \<open>while\<close> loop: \<open>predecessor[current]\<close> raises \<open>KeyError\<close> for a vertex without
  predecessor.  Every turn adds to \<open>cycle\<close> a key of the dict that was not in it, so
  the loop ends.
\<close>

function cycle_loop ::
  "('v, 'v) pydict \<Rightarrow> 'v list \<Rightarrow> 'v \<Rightarrow> error + ('v list \<times> 'v)" where
  "cycle_loop predecessor cycle current =
     (if current \<in> set cycle then Inr (cycle, current)
      else (case map_of predecessor current of
              None \<Rightarrow> Inl KeyError
            | Some previous \<Rightarrow> cycle_loop predecessor (cycle @ [current]) previous))"
  by pat_completeness auto
termination
proof (relation "measure (\<lambda>(predecessor, cycle, current). card (fst ` set predecessor - set cycle))")
  show "wf (measure (\<lambda>(predecessor, cycle, current). card (fst ` set predecessor - set cycle)))"
    by simp
next
  fix predecessor :: "('v, 'v) pydict" and cycle :: "'v list" and current previous :: 'v
  assume fresh: "current \<notin> set cycle" and found: "map_of predecessor current = Some previous"
  from found have key: "current \<in> fst ` set predecessor"
    by (metis map_of_eq_None_iff option.distinct(1))
  have "fst ` set predecessor - set (cycle @ [current]) \<subset> fst ` set predecessor - set cycle"
    using fresh key by auto
  then have "card (fst ` set predecessor - set (cycle @ [current]))
               < card (fst ` set predecessor - set cycle)"
    by (intro psubset_card_mono) auto
  then show "((predecessor, cycle @ [current], previous), (predecessor, cycle, current))
               \<in> measure (\<lambda>(predecessor, cycle, current). card (fst ` set predecessor - set cycle))"
    by simp
qed

text \<open>\<open>cycle.index(current)\<close>: the first position of \<open>current\<close>, \<open>ValueError\<close> if there is none.\<close>

fun list_index :: "'a list \<Rightarrow> 'a \<Rightarrow> error + nat" where
  "list_index [] x = Inl ValueError"
| "list_index (y # ys) x =
     (if y = x then Inr 0
      else (case list_index ys x of Inl e \<Rightarrow> Inl e | Inr i \<Rightarrow> Inr (Suc i)))"

definition find_negative_cycle_path ::
  "('v, 'v) pydict \<Rightarrow> ('v \<times> 'v) option \<Rightarrow> error + 'v list option" where
  "find_negative_cycle_path predecessor neg_edge =
     (case neg_edge of
        None \<Rightarrow> Inr None
      | Some (u, v) \<Rightarrow>
          (case map_of predecessor u of
             None \<Rightarrow> Inl KeyError
           | Some current0 \<Rightarrow>
               (case cycle_loop predecessor [v, u] current0 of
                  Inl e \<Rightarrow> Inl e
                | Inr (cycle, current) \<Rightarrow>
                    (case list_index cycle current of
                       Inl e \<Rightarrow> Inl e
                     | Inr cycle_start \<Rightarrow>
                         (let cycle' = drop cycle_start cycle
                          in case getitem0 cycle' of
                               Inl e \<Rightarrow> Inl e
                             | Inr first \<Rightarrow> Inr (Some (rev (cycle' @ [first]))))))))"

subsection \<open>\<open>identify_arbitrage\<close>\<close>

text \<open>What the method prints.\<close>

datatype 'p printed =
    Arbitrage_opportunity
  | Could_not_find_price iso_pair
  | Leg iso_pair 'p 'p

text \<open>
  One turn of the loop over the legs of the path.  \<open>curr_rate\<close> is a local variable that
  is unbound (\<open>None\<close>) until a leg assigns it, and reading it unbound raises
  \<open>UnboundLocalError\<close>; dividing by the float zero raises \<open>ZeroDivisionError\<close>.  The
  arithmetic of prices is the arithmetic of the type \<open>'p\<close>.  The lines printed before an
  exception stay printed.
\<close>

definition lookup_rate ::
  "('p::{zero,numeral,times,inverse}) quotes \<Rightarrow> iso_pair \<Rightarrow> 'p option
     \<Rightarrow> error option \<times> 'p option \<times> 'p printed list" where
  "lookup_rate qd curr_pair curr_rate =
     (case map_of qd curr_pair of
        Some q \<Rightarrow> (None, Some (fst q), [])
      | None \<Rightarrow>
          (case map_of qd (snd curr_pair, fst curr_pair) of
             Some q \<Rightarrow>
               if fst q = 0 then (Some ZeroDivisionError, Some (fst q), [])
               else (None, Some (1 / fst q), [])
           | None \<Rightarrow> (None, curr_rate, [Could_not_find_price curr_pair])))"

definition leg_step ::
  "('p::{zero,numeral,times,inverse}) quotes \<Rightarrow> iso_pair \<Rightarrow> 'p \<times> 'p option
     \<Rightarrow> error option \<times> ('p \<times> 'p option) \<times> 'p printed list" where
  "leg_step qd curr_pair s =
     (case lookup_rate qd curr_pair (snd s) of
        (Some e, rate, out) \<Rightarrow> (Some e, (fst s, rate), out)
      | (None, None, out) \<Rightarrow> (Some UnboundLocalError, (fst s, None), out)
      | (None, Some r, out) \<Rightarrow>
          (None, (fst s * r, Some r), out @ [Leg curr_pair r (fst s * r)]))"

fun legs_loop ::
  "('p::{zero,numeral,times,inverse}) quotes \<Rightarrow> 'p \<times> 'p option \<Rightarrow> iso_pair list
     \<Rightarrow> error option \<times> ('p \<times> 'p option) \<times> 'p printed list" where
  "legs_loop qd s [] = (None, s, [])"
| "legs_loop qd s (curr_pair # rest) =
     (case leg_step qd curr_pair s of
        (Some e, s', out) \<Rightarrow> (Some e, s', out)
      | (None, s', out) \<Rightarrow>
          (case legs_loop qd s' rest of (err, s'', out') \<Rightarrow> (err, s'', out @ out')))"

text \<open>
  \<open>shortest_paths\<close> stands for \<open>self.quotes_graph.shortest_paths('USD', 0.000000001)\<close>
  of the module that is not part of the sources: it gives the distances, the dict of
  predecessors and the edge on which a negative cycle was detected, if any.
\<close>

definition identify_arbitrage ::
  "('w edge list \<Rightarrow> 'd \<times> (string, string) pydict \<times> (string \<times> string) option)
     \<Rightarrow> ('p::{zero,numeral,times,inverse}, 'w) subscriber
     \<Rightarrow> error option \<times> ('p, 'w) subscriber \<times> 'p printed list" where
  "identify_arbitrage shortest_paths self =
     (let shortest_path = shortest_paths (quotes_graph self)
      in case find_negative_cycle_path (fst (snd shortest_path)) (snd (snd shortest_path)) of
           Inl e \<Rightarrow> (Some e, self, [])
         | Inr path \<Rightarrow>
             (case path of
                None \<Rightarrow> (None, self, [])
              | Some p \<Rightarrow>
                  if p \<noteq> [] \<and> path \<noteq> current_path self then
                    (let self' = self\<lparr>current_path := path\<rparr>
                     in case legs_loop (quotes_dict self') (100, None) (zip p (tl p)) of
                          (err, s, out) \<Rightarrow> (err, self', Arbitrage_opportunity # out))
                  else (None, self, [])))"

subsection \<open>The two loops\<close>

text \<open>
  One turn of the loop of \<open>update_graph\<close>.  An empty queue makes \<open>get\<close> raise
  \<open>queue.Empty\<close> and the turn does nothing; any other exception is caught, printed
  (it is the first component of the result) and the loop goes on.
\<close>

definition update_graph_step ::
  "('p \<Rightarrow> error + 'w)
     \<Rightarrow> ('w edge list \<Rightarrow> 'd \<times> (string, string) pydict \<times> (string \<times> string) option)
     \<Rightarrow> (nat \<Rightarrow> int)
     \<Rightarrow> ('p::{zero,numeral,times,inverse}, 'w::uminus) subscriber
     \<Rightarrow> error option \<times> ('p, 'w) subscriber \<times> 'p printed list" where
  "update_graph_step log10 shortest_paths utcnow self =
     (case quotes_queue self of
        [] \<Rightarrow> (None, self, [])
      | quotes # waiting \<Rightarrow>
          (let self1 = self\<lparr>quotes_queue := waiting\<rparr>
           in case graph_loop log10 utcnow 0 [] quotes of
                Inl e \<Rightarrow> (Some e, self1, [])
              | Inr new_graph \<Rightarrow>
                  identify_arbitrage shortest_paths (self1\<lparr>quotes_graph := new_graph\<rparr>)))"

text \<open>
  One turn of the loop of \<open>receive_updates\<close> for the datagram \<open>data\<close>;
  \<open>current_time\<close> is the clock reading of \<open>remove_stale_quotes\<close>.  The exception
  caught by the loop, if any, is the first component of the result.
\<close>

definition receive_updates_step ::
  "byteorder \<Rightarrow> int \<Rightarrow> byte list \<Rightarrow> (32 word, 'w) subscriber
     \<Rightarrow> error option \<times> (32 word, 'w) subscriber" where
  "receive_updates_step host current_time data self =
     (case parse_quotes host (split_quotes data) of
        Inl e \<Rightarrow> (Some e, self)
      | Inr new_quotes_dict \<Rightarrow>
          (case update_quotes_dict new_quotes_dict self of
             (Inl e, self1) \<Rightarrow> (Some e, self1)
           | (Inr r, self1) \<Rightarrow>
               (case remove_stale_quotes current_time self1 of
                  (Inl e, self2) \<Rightarrow> (Some e, self2)
                | (Inr r', self2) \<Rightarrow> (None, self2))))"

text \<open>The loop over the datagrams received, each with its clock reading.\<close>

fun receive_updates ::
  "byteorder \<Rightarrow> (int \<times> byte list) list \<Rightarrow> (32 word, 'w) subscriber
     \<Rightarrow> error option list \<times> (32 word, 'w) subscriber" where
  "receive_updates host [] self = ([], self)"
| "receive_updates host ((current_time, data) # rest) self =
     (case receive_updates_step host current_time data self of
        (caught, self') \<Rightarrow>
          (case receive_updates host rest self' of
             (caughts, self'') \<Rightarrow> (caught # caughts, self'')))"

section \<open>Notions used to state and prove the properties\<close>


text \<open>
  \<open>newer a b\<close>: the comparison \<open>a < b\<close> of the merge succeeds and holds.  A store has
  \<open>advanced\<close> to another when every entry of it is still there, unchanged or with a
  newer timestamp; it has advanced at a key when the key is new or its timestamp newer.
\<close>

definition newer :: "timestamp \<Rightarrow> timestamp \<Rightarrow> bool" where
  "newer a b \<longleftrightarrow> ts_less a b = Inr True"



text \<open>
  An entry is stale at \<open>current_time\<close> when its age can be computed and is above 1.5
  seconds; \<open>kept\<close> is the store without its stale entries.
\<close>

definition is_stale :: "int \<Rightarrow> timestamp \<Rightarrow> bool" where
  "is_stale current_time timestamp \<longleftrightarrow>
     (case age_seconds current_time timestamp of Inl e \<Rightarrow> False | Inr age \<Rightarrow> age > 3 / 2)"

definition kept :: "int \<Rightarrow> 'p quotes \<Rightarrow> 'p quotes" where
  "kept current_time qd = filter (\<lambda>entry. \<not> is_stale current_time (snd (snd entry))) qd"

text \<open>
  The walk of the cycle reconstruction in the words of its description: the vertices
  \<open>v, u, predecessor[u], predecessor[predecessor[u]], \<dots>\<close>.  \<open>pred_chain\<close> holds of a list
  in which every vertex is followed by its predecessor; \<open>truncated_walk\<close> says that
  \<open>v, u, ws, x\<close> is that walk up to its first repeated vertex \<open>x\<close>; the closed suffix of
  the walk is its part from the first occurrence of \<open>x\<close> on.
\<close>

fun pred_chain :: "('v, 'v) pydict \<Rightarrow> 'v list \<Rightarrow> bool" where
  "pred_chain predecessor (x # y # rest) =
     (map_of predecessor x = Some y \<and> pred_chain predecessor (y # rest))"
| "pred_chain predecessor [x] = True"
| "pred_chain predecessor [] = True"

definition truncated_walk :: "('v, 'v) pydict \<Rightarrow> 'v \<Rightarrow> 'v \<Rightarrow> 'v list \<Rightarrow> 'v \<Rightarrow> bool" where
  "truncated_walk predecessor u v ws x \<longleftrightarrow>
     pred_chain predecessor (u # ws @ [x]) \<and> distinct (v # u # ws) \<and> x \<in> set (v # u # ws)"

definition closed_suffix :: "'v list \<Rightarrow> 'v \<Rightarrow> 'v list" where
  "closed_suffix walk x = dropWhile (\<lambda>y. y \<noteq> x) walk @ [x]"

text \<open>
  The edges of the price graph in the words of the data model: a fresh quote for the
  pair \<open>(A, B)\<close> gives the edge from \<open>A\<close> to \<open>B\<close> with minus the logarithm of the price
  and the edge from \<open>B\<close> to \<open>A\<close> with the logarithm; \<open>lg\<close> is the logarithm where it is
  defined.  \<open>fresh_edges\<close> collects them for the quotes that are not stale when the
  loop reads the clock for them.
\<close>

definition quote_edges :: "('p \<Rightarrow> 'w) \<Rightarrow> iso_pair \<times> 'p \<times> timestamp \<Rightarrow> ('w::uminus) edge list" where
  "quote_edges lg entry =
     [(fst (fst entry), snd (fst entry), - lg (fst (snd entry))),
      (snd (fst entry), fst (fst entry), lg (fst (snd entry)))]"

fun fresh_edges ::
  "('p \<Rightarrow> 'w) \<Rightarrow> (nat \<Rightarrow> int) \<Rightarrow> nat \<Rightarrow> 'p quotes \<Rightarrow> ('w::uminus) edge list" where
  "fresh_edges lg utcnow i [] = []"
| "fresh_edges lg utcnow i (entry # rest) =
     (if is_stale (utcnow i) (snd (snd entry)) then [] else quote_edges lg entry)
     @ fresh_edges lg utcnow (Suc i) rest"

text \<open>A store is float-stamped when all its timestamps are floats, as the codec makes them.\<close>

fun is_float :: "timestamp \<Rightarrow> bool" where
  "is_float (Float_seconds s) = True"
| "is_float (Datetime d) = False"

definition float_stamped :: "'p quotes \<Rightarrow> bool" where
  "float_stamped qd \<longleftrightarrow> list_all (\<lambda>entry. is_float (snd (snd entry))) qd"

text \<open>
  A batch is comparable with a store when no timestamp of the batch is of another type
  than the timestamp stored for its pair, so that no comparison of the merge raises.
\<close>

definition comparable :: "'p quotes \<Rightarrow> 'p quotes \<Rightarrow> bool" where
  "comparable qd new \<longleftrightarrow>
     list_all (\<lambda>incoming.
        case map_of qd (fst incoming) of
          None \<Rightarrow> True
        | Some stored \<Rightarrow> ts_less (snd stored) (snd (snd incoming)) \<noteq> Inl TypeError) new"







text \<open>
  Records as the feed sends them, for the evaluations below.  \<open>EURUSD_at_2s\<close> and
  \<open>EURUSD_at_1s\<close> are full records for the pair \<open>EUR, USD\<close> with the timestamps of
  2 000 000 and 1 000 000 microseconds; \<open>EURUSD_one\<close> carries in bytes 6 to 9 the
  big-endian float 1.0; \<open>GBPUSD_18_bytes\<close> is a partial record of 18 bytes.
\<close>

definition EURUSD_at_2s :: "byte list" where
  "EURUSD_at_2s =
     [0x45, 0x55, 0x52, 0x55, 0x53, 0x44, 0, 0, 0x80, 0x3F, 0, 0, 0, 0, 0, 0x1E, 0x84, 0x80,
      0, 0, 0, 0, 0, 0, 0, 0, 0, 0, 0, 0, 0, 0]"


definition EURUSD_one :: "byte list" where
  "EURUSD_one =
     [0x45, 0x55, 0x52, 0x55, 0x53, 0x44, 0x3F, 0x80, 0, 0, 0, 0, 0, 0, 0, 0x0F, 0x42, 0x40,
      0, 0, 0, 0, 0, 0, 0, 0, 0, 0, 0, 0, 0, 0]"

definition GBPUSD_18_bytes :: "byte list" where
  "GBPUSD_18_bytes =
     [0x47, 0x42, 0x50, 0x55, 0x53, 0x44, 0, 0, 0x80, 0x3F, 0, 0, 0, 0, 0, 0x0F, 0x42, 0x40]"

text \<open>A subscriber that has not received anything yet.\<close>

definition idle_subscriber :: "(32 word, int) subscriber" where
  "idle_subscriber =
     \<lparr>quotes_dict = [], quotes_queue = [], current_path = None, quotes_graph = []\<rparr>"

section \<open>The merge into the quote store\<close>

















text \<open>
  Claim C9.  The docstring of \<open>update_quotes_dict\<close> promises a boolean that tells whether
  any quote was updated, but the method ends without \<open>return\<close>: whatever the store and
  the batch are, it never returns a boolean (it returns \<open>None\<close> or raises), also when it
  has inserted or overwritten entries.
\<close>

theorem update_quotes_dict_returns_no_bool:
  "fst (update_quotes_dict new_quotes_dict self) \<noteq> Inr (Some updated)"
  unfolding update_quotes_dict_def
  by (cases "update_loop (quotes_dict self) False new_quotes_dict" rule: prod_cases3)
     (auto split: option.splits)


section \<open>The eviction of stale quotes\<close>

text \<open>
  The two loops of the eviction: the first returns the keys of the stale entries in
  their order, or raises \<open>TypeError\<close>; the second, on keys that are distinct and present,
  deletes them all without raising.  On a dict the store is left without its stale
  entries, and a snapshot is pushed exactly when there was one.
\<close>

lemma stale_loop_Inr:
  "stale_loop now acc qd = Inr sp \<Longrightarrow>
   sp = acc @ map fst (filter (\<lambda>entry. is_stale now (snd (snd entry))) qd)"
proof (induction qd arbitrary: acc)
  case Nil
  then show ?case by simp
next
  case (Cons x rest)
  obtain k p t where x: "x = (k, (p, t))" by (cases x) auto
  show ?case
  proof (cases "age_seconds now t")
    case (Inl e)
    with Cons.prems x show ?thesis by simp
  next
    case (Inr age)
    show ?thesis
    proof (cases "age > 3 / 2")
      case True
      with Cons.prems x Inr have "stale_loop now (acc @ [k]) rest = Inr sp" by simp
      from Cons.IH [OF this] x Inr True show ?thesis by (simp add: is_stale_def)
    next
      case False
      with Cons.prems x Inr have "stale_loop now acc rest = Inr sp" by simp
      from Cons.IH [OF this] x Inr False show ?thesis by (simp add: is_stale_def)
    qed
  qed
qed

lemma stale_loop_Inl:
  "stale_loop now acc qd = Inl e \<Longrightarrow> e = TypeError"
proof (induction qd arbitrary: acc)
  case Nil
  then show ?case by simp
next
  case (Cons x rest)
  obtain k p t where x: "x = (k, (p, t))" by (cases x) auto
  show ?case
  proof (cases t)
    case (Float_seconds s)
    with Cons.prems x show ?thesis by simp
  next
    case (Datetime d)
    with Cons.prems x Cons.IH show ?thesis by (simp split: if_splits)
  qed
qed

lemma stale_loop_datetimes:
  "(\<forall>entry \<in> set qd. \<exists>d. snd (snd entry) = Datetime d) \<Longrightarrow> \<exists>sp. stale_loop now acc qd = Inr sp"
proof (induction qd arbitrary: acc)
  case Nil
  then show ?case by simp
next
  case (Cons x rest)
  obtain k p t where x: "x = (k, (p, t))" by (cases x) auto
  from Cons.prems x obtain d where t: "t = Datetime d" by auto
  from Cons.prems have rest: "\<forall>entry \<in> set rest. \<exists>d. snd (snd entry) = Datetime d" by simp
  from Cons.IH [OF rest] x t show ?case by simp
qed

lemma delete_loop_present:
  "distinct ks \<Longrightarrow> set ks \<subseteq> fst ` set qd \<Longrightarrow>
   delete_loop qd ks = (None, filter (\<lambda>entry. fst entry \<notin> set ks) qd)"
proof (induction ks arbitrary: qd)
  case Nil
  then show ?case by simp
next
  case (Cons k rest)
  from Cons.prems have k: "k \<in> fst ` set qd" and fresh: "k \<notin> set rest"
    and dist: "distinct rest" and sub: "set rest \<subseteq> fst ` set qd" by simp_all
  have del: "AList.delete k qd = filter (\<lambda>entry. fst entry \<noteq> k) qd"
    by (induction qd) auto
  from sub fresh have sub': "set rest \<subseteq> fst ` set (AList.delete k qd)"
    unfolding del by force
  have "delete_loop qd (k # rest) = delete_loop (AList.delete k qd) rest"
    using k by (simp add: delitem_def)
  also have "\<dots> = (None, filter (\<lambda>entry. fst entry \<notin> set rest) (AList.delete k qd))"
    by (rule Cons.IH [OF dist sub'])
  also have "filter (\<lambda>entry. fst entry \<notin> set rest) (AList.delete k qd)
               = filter (\<lambda>entry. fst entry \<notin> set (k # rest)) qd"
    unfolding del by (induction qd) auto
  finally show ?case .
qed

lemma stale_keys_filter:
  assumes "distinct (map fst qd)"
  shows "filter (\<lambda>entry. fst entry \<notin> set (map fst (filter (\<lambda>entry. is_stale now (snd (snd entry))) qd))) qd
           = kept now qd"
  unfolding kept_def
proof (rule filter_cong [OF refl])
  fix entry
  assume mem: "entry \<in> set qd"
  have "fst entry \<in> fst ` {e \<in> set qd. is_stale now (snd (snd e))} \<longleftrightarrow> is_stale now (snd (snd entry))"
  proof
    assume "fst entry \<in> fst ` {e \<in> set qd. is_stale now (snd (snd e))}"
    then obtain e where e: "e \<in> set qd" "is_stale now (snd (snd e))" "fst e = fst entry" by auto
    from assms e(1) mem e(3) have "e = entry" by (metis eq_key_imp_eq_value prod.collapse)
    with e(2) show "is_stale now (snd (snd entry))" by simp
  next
    assume "is_stale now (snd (snd entry))"
    with mem show "fst entry \<in> fst ` {e \<in> set qd. is_stale now (snd (snd e))}" by auto
  qed
  then show "(fst entry \<notin> set (map fst (filter (\<lambda>entry. is_stale now (snd (snd entry))) qd)))
               = (\<not> is_stale now (snd (snd entry)))"
    by simp
qed

lemma remove_stale_quotes_distinct:
  assumes "distinct (map fst (quotes_dict self))"
  shows "remove_stale_quotes now self =
           (case stale_loop now [] (quotes_dict self) of
              Inl e \<Rightarrow> (Inl e, self)
            | Inr sp \<Rightarrow>
                (Inr (),
                 if sp \<noteq> []
                 then self\<lparr>quotes_dict := kept now (quotes_dict self),
                           quotes_queue := quotes_queue self @ [kept now (quotes_dict self)]\<rparr>
                 else self\<lparr>quotes_dict := kept now (quotes_dict self)\<rparr>))"
proof (cases "stale_loop now [] (quotes_dict self)")
  case (Inl e)
  then show ?thesis by (simp add: remove_stale_quotes_def)
next
  case (Inr sp)
  from stale_loop_Inr [OF Inr]
  have sp: "sp = map fst (filter (\<lambda>entry. is_stale now (snd (snd entry))) (quotes_dict self))"
    by simp
  from assms have "distinct sp" unfolding sp by (rule distinct_map_filter)
  moreover have "set sp \<subseteq> fst ` set (quotes_dict self)" unfolding sp by auto
  ultimately have "delete_loop (quotes_dict self) sp
                     = (None, filter (\<lambda>entry. fst entry \<notin> set sp) (quotes_dict self))"
    by (rule delete_loop_present)
  also have "filter (\<lambda>entry. fst entry \<notin> set sp) (quotes_dict self) = kept now (quotes_dict self)"
    unfolding sp by (rule stale_keys_filter [OF assms])
  finally have "delete_loop (quotes_dict self) sp = (None, kept now (quotes_dict self))" .
  with Inr show ?thesis by (simp add: remove_stale_quotes_def)
qed



text \<open>
  What the subscriber holds when it runs: \<open>parse_quotes\<close> returns float-stamped dicts,
  merging them into a float-stamped store never raises and keeps the store
  float-stamped, and \<open>remove_stale_quotes\<close> raises \<open>TypeError\<close> on every such store that
  is not empty.
\<close>

lemma float_stamped_update:
  "float_stamped qd \<Longrightarrow> is_float t \<Longrightarrow> float_stamped (AList.update k (p, t) qd)"
  by (induction qd) (auto simp: float_stamped_def)

lemma ts_less_floats: "is_float a \<Longrightarrow> is_float b \<Longrightarrow> \<exists>r. ts_less a b = Inr r"
  by (cases a; cases b) simp_all

lemma update_loop_floats:
  "float_stamped qd \<Longrightarrow> float_stamped new \<Longrightarrow>
   \<exists>qd' u'. update_loop qd u new = (None, qd', u') \<and> float_stamped qd'"
proof (induction new arbitrary: qd u)
  case Nil
  then show ?case by simp
next
  case (Cons x rest)
  obtain k p t where x: "x = (k, (p, t))" by (cases x) auto
  from Cons.prems(2) x have t: "is_float t" and rest: "float_stamped rest"
    by (simp_all add: float_stamped_def)
  from float_stamped_update [OF Cons.prems(1) t]
  have upd: "float_stamped (AList.update k (p, t) qd)" .
  show ?case
  proof (cases "map_of qd k")
    case None
    with x Cons.IH [OF upd rest, of True] show ?thesis by simp
  next
    case (Some stored)
    then have "(k, stored) \<in> set qd" by (rule map_of_SomeD)
    with Cons.prems(1) have "is_float (snd stored)"
      by (auto simp: float_stamped_def list_all_iff)
    from ts_less_floats [OF this t] obtain r where r: "ts_less (snd stored) t = Inr r" by blast
    show ?thesis
    proof (cases r)
      case True
      with x Some r Cons.IH [OF upd rest, of True] show ?thesis by simp
    next
      case False
      with x Some r Cons.IH [OF Cons.prems(1) rest, of u] show ?thesis by simp
    qed
  qed
qed

lemma update_quotes_dict_floats:
  assumes "float_stamped (quotes_dict self)" and "float_stamped new_quotes_dict"
  shows "\<exists>self'. update_quotes_dict new_quotes_dict self = (Inr None, self')
           \<and> float_stamped (quotes_dict self')"
proof -
  from update_loop_floats [OF assms, of False] obtain qd' u' where
    "update_loop (quotes_dict self) False new_quotes_dict = (None, qd', u')" "float_stamped qd'"
    by blast
  then show ?thesis by (cases u') (simp_all add: update_quotes_dict_def)
qed

lemma parse_quote_float: "parse_quote host quote = Inr (k, (p, t)) \<Longrightarrow> is_float t"
  by (auto simp: parse_quote_def deserialize_utcdatetime_def split: sum.splits)

lemma parse_quotes_loop_floats:
  "parse_quotes_loop host d chunks = Inr d' \<Longrightarrow> float_stamped d \<Longrightarrow> float_stamped d'"
proof (induction chunks arbitrary: d)
  case Nil
  then show ?case by simp
next
  case (Cons c rest)
  show ?case
  proof (cases "parse_quote host c")
    case (Inl e)
    with Cons.prems(1) show ?thesis by simp
  next
    case (Inr kv)
    obtain k p t where kv: "kv = (k, (p, t))" by (cases kv) auto
    from Inr kv have "is_float t" by (auto dest: parse_quote_float)
    from float_stamped_update [OF Cons.prems(2) this]
    have "float_stamped (AList.update k (p, t) d)" .
    moreover from Inr kv Cons.prems(1)
    have "parse_quotes_loop host (AList.update k (p, t) d) rest = Inr d'" by simp
    ultimately show ?thesis using Cons.IH by blast
  qed
qed

lemma parse_quotes_floats: "parse_quotes host chunks = Inr parsed \<Longrightarrow> float_stamped parsed"
  unfolding parse_quotes_def
  by (erule parse_quotes_loop_floats) (simp add: float_stamped_def)

lemma remove_stale_quotes_float_store:
  assumes "float_stamped (quotes_dict self)" and "quotes_dict self \<noteq> []"
  shows "remove_stale_quotes current_time self = (Inl TypeError, self)"
proof -
  from assms(2) obtain x rest where qd: "quotes_dict self = x # rest"
    by (cases "quotes_dict self") auto
  obtain k p t where x: "x = (k, (p, t))" by (cases x) auto
  from assms(1) qd x have "is_float t" by (simp add: float_stamped_def)
  then obtain s where "t = Float_seconds s" by (cases t) auto
  with qd x show ?thesis by (simp add: remove_stale_quotes_def)
qed

text \<open>
  On a store whose timestamps are datetimes, as the method expects them, the eviction
  does what its docstring says: an entry older than 1.5 seconds is absent afterwards and
  any other entry is kept with its price and timestamp.
\<close>

lemma map_of_kept:
  assumes "distinct (map fst qd)" and "map_of qd k = Some v"
  shows "map_of (kept now qd) k = (if is_stale now (snd v) then None else Some v)"
proof (cases "is_stale now (snd v)")
  case True
  have "k \<notin> fst ` set (kept now qd)"
  proof
    assume "k \<in> fst ` set (kept now qd)"
    then obtain v' where v': "(k, v') \<in> set qd" "\<not> is_stale now (snd v')"
      by (auto simp: kept_def)
    from assms(1) v'(1) have "map_of qd k = Some v'" by simp
    with assms(2) True v'(2) show False by simp
  qed
  then have "map_of (kept now qd) k = None" by (simp add: map_of_eq_None_iff)
  with True show ?thesis by simp
next
  case False
  from assms(2) have "(k, v) \<in> set qd" by (rule map_of_SomeD)
  with False have mem: "(k, v) \<in> set (kept now qd)" by (simp add: kept_def)
  from assms(1) have "distinct (map fst (kept now qd))"
    unfolding kept_def by (rule distinct_map_filter)
  with mem have "map_of (kept now qd) k = Some v" by simp
  with False show ?thesis by simp
qed

lemma remove_stale_quotes_datetimes:
  assumes "distinct (map fst (quotes_dict self))"
    and "\<forall>entry \<in> set (quotes_dict self). \<exists>d. snd (snd entry) = Datetime d"
    and "map_of (quotes_dict self) iso_pair = Some (price, Datetime d)"
  shows "fst (remove_stale_quotes now self) = Inr ()"
    and "map_of (quotes_dict (snd (remove_stale_quotes now self))) iso_pair =
           (if of_int (now - d) / 1000000 > (3 / 2 :: rat) then None else Some (price, Datetime d))"
proof -
  from stale_loop_datetimes [OF assms(2)] obtain sp where
    sp: "stale_loop now [] (quotes_dict self) = Inr sp" by blast
  with remove_stale_quotes_distinct [OF assms(1), of now]
  have res: "fst (remove_stale_quotes now self) = Inr ()"
    "quotes_dict (snd (remove_stale_quotes now self)) = kept now (quotes_dict self)"
    by (simp_all split: if_splits)
  from res(1) show "fst (remove_stale_quotes now self) = Inr ()" .
  from map_of_kept [OF assms(1) assms(3), of now] res(2)
  show "map_of (quotes_dict (snd (remove_stale_quotes now self))) iso_pair =
           (if of_int (now - d) / 1000000 > (3 / 2 :: rat) then None else Some (price, Datetime d))"
    by (simp add: is_stale_def)
qed

section \<open>The merge of a batch that is comparable with the store\<close>






lemma float_stamped_comparable:
  assumes "float_stamped qd" and "float_stamped new"
  shows "comparable qd new"
  unfolding comparable_def list_all_iff
proof
  fix incoming assume "incoming \<in> set new"
  with assms(2) have inc: "is_float (snd (snd incoming))"
    by (simp add: float_stamped_def list_all_iff)
  show "case map_of qd (fst incoming) of None \<Rightarrow> True
        | Some stored \<Rightarrow> ts_less (snd stored) (snd (snd incoming)) \<noteq> Inl TypeError"
  proof (cases "map_of qd (fst incoming)")
    case None
    then show ?thesis by simp
  next
    case (Some stored)
    then have "(fst incoming, stored) \<in> set qd" by (rule map_of_SomeD)
    with assms(1) have "is_float (snd stored)" by (auto simp: float_stamped_def list_all_iff)
    from ts_less_floats [OF this inc] Some show ?thesis by auto
  qed
qed













section \<open>The reconstruction of the cycle\<close>

text \<open>
  The loop of the reconstruction extends a duplicate-free \<open>cycle\<close> along the
  predecessors until it meets a vertex of the cycle, and can only raise \<open>KeyError\<close>;
  \<open>cycle.index\<close> and \<open>cycle[0]\<close> then cannot raise.
\<close>

lemma pred_chain_Cons:
  "pred_chain predecessor (l # ws @ [x]) \<Longrightarrow> map_of predecessor k = Some l
   \<Longrightarrow> pred_chain predecessor (k # l # ws @ [x])"
  by simp

lemma cycle_loop_walk:
  "cycle_loop predecessor cycle current = Inr (cycle', x) \<Longrightarrow> distinct cycle
   \<Longrightarrow> map_of predecessor l = Some current
   \<Longrightarrow> \<exists>ws. cycle' = cycle @ ws \<and> distinct cycle' \<and> x \<in> set cycle'
            \<and> pred_chain predecessor (l # ws @ [x])"
proof (induction predecessor cycle current arbitrary: l rule: cycle_loop.induct)
  case (1 predecessor cycle current)
  show ?case
  proof (cases "current \<in> set cycle")
    case True
    with "1.prems"(1) have "cycle' = cycle" "x = current" by simp_all
    with "1.prems"(2,3) True show ?thesis by simp
  next
    case False
    show ?thesis
    proof (cases "map_of predecessor current")
      case None
      with "1.prems"(1) False show ?thesis by simp
    next
      case (Some previous)
      with "1.prems"(1) False
      have run: "cycle_loop predecessor (cycle @ [current]) previous = Inr (cycle', x)" by simp
      from "1.prems"(2) False have dist: "distinct (cycle @ [current])" by simp
      from "1.IH" [OF False Some run dist Some] obtain ws where
        ws: "cycle' = (cycle @ [current]) @ ws" "distinct cycle'" "x \<in> set cycle'"
            "pred_chain predecessor (current # ws @ [x])" by blast
      from ws(4) "1.prems"(3) have "pred_chain predecessor (l # (current # ws) @ [x])" by simp
      with ws(1-3) show ?thesis by (intro exI [of _ "current # ws"]) simp
    qed
  qed
qed

lemma list_index_member:
  "x \<in> set xs \<Longrightarrow> \<exists>i. list_index xs x = Inr i \<and> drop i xs = dropWhile (\<lambda>y. y \<noteq> x) xs"
proof (induction xs)
  case Nil
  then show ?case by simp
next
  case (Cons y ys)
  show ?case
  proof (cases "y = x")
    case True
    then show ?thesis by simp
  next
    case False
    with Cons.prems have "x \<in> set ys" by simp
    from Cons.IH [OF this] obtain i where "list_index ys x = Inr i"
      "drop i ys = dropWhile (\<lambda>y. y \<noteq> x) ys" by blast
    with False show ?thesis by simp
  qed
qed

lemma dropWhile_member:
  "x \<in> set xs \<Longrightarrow> \<exists>rest. dropWhile (\<lambda>y. y \<noteq> x) xs = x # rest"
  by (induction xs) auto

lemma find_negative_cycle_path_Some:
  assumes "u \<noteq> v"
  shows "find_negative_cycle_path predecessor (Some (u, v)) =
           (case map_of predecessor u of
              None \<Rightarrow> Inl KeyError
            | Some current0 \<Rightarrow>
                (case cycle_loop predecessor [v, u] current0 of
                   Inl e \<Rightarrow> Inl e
                 | Inr (cycle, x) \<Rightarrow> Inr (Some (rev (closed_suffix cycle x)))))"
proof (cases "map_of predecessor u")
  case None
  then show ?thesis by (simp add: find_negative_cycle_path_def)
next
  case (Some current0)
  show ?thesis
  proof (cases "cycle_loop predecessor [v, u] current0")
    case (Inl e)
    with Some show ?thesis by (simp add: find_negative_cycle_path_def)
  next
    case (Inr res)
    obtain cycle x where res: "res = (cycle, x)" by (cases res)
    from assms have "distinct [v, u]" by auto
    from cycle_loop_walk [OF Inr [unfolded res] this Some] have mem: "x \<in> set cycle" by blast
    from list_index_member [OF mem] obtain i where
      i: "list_index cycle x = Inr i" "drop i cycle = dropWhile (\<lambda>y. y \<noteq> x) cycle" by blast
    from dropWhile_member [OF mem] obtain rest where
      rest: "dropWhile (\<lambda>y. y \<noteq> x) cycle = x # rest" by blast
    from Some Inr res i rest show ?thesis
      by (simp add: find_negative_cycle_path_def closed_suffix_def getitem0_def)
  qed
qed

lemma cycle_loop_error: "cycle_loop predecessor cycle current = Inl e \<Longrightarrow> e = KeyError"
proof (induction predecessor cycle current rule: cycle_loop.induct)
  case (1 predecessor cycle current)
  show ?case
  proof (cases "current \<in> set cycle")
    case True
    with "1.prems" show ?thesis by simp
  next
    case False
    show ?thesis
    proof (cases "map_of predecessor current")
      case None
      with "1.prems" False show ?thesis by simp
    next
      case (Some previous)
      with "1.prems" False
      have "cycle_loop predecessor (cycle @ [current]) previous = Inl e" by simp
      from "1.IH" [OF False Some this] show ?thesis .
    qed
  qed
qed

text \<open>The closed suffix of a duplicate-free walk, reversed, is a simple closed path.\<close>

lemma closed_suffix_shape:
  assumes "distinct walk" and "x \<in> set walk"
  shows "hd (rev (closed_suffix walk x)) = last (rev (closed_suffix walk x))"
    and "distinct (butlast (rev (closed_suffix walk x)))"
    and "distinct (tl (rev (closed_suffix walk x)))"
proof -
  from dropWhile_member [OF assms(2)] obtain rest where
    rest: "dropWhile (\<lambda>y. y \<noteq> x) walk = x # rest" by blast
  from assms(1) have "distinct (dropWhile (\<lambda>y. y \<noteq> x) walk)" by (rule distinct_dropWhile)
  with rest have dist: "x \<notin> set rest" "distinct rest" by simp_all
  have shape: "rev (closed_suffix walk x) = x # rev rest @ [x]"
    by (simp add: closed_suffix_def rest)
  show "hd (rev (closed_suffix walk x)) = last (rev (closed_suffix walk x))"
    by (simp add: shape)
  have "butlast (x # rev rest @ [x]) = x # rev rest"
    by (simp add: butlast_append)
  with dist show "distinct (butlast (rev (closed_suffix walk x)))" by (simp add: shape)
  from dist show "distinct (tl (rev (closed_suffix walk x)))" by (simp add: shape)
qed

text \<open>
  Claim C5, amended.  For a negative edge \<open>(u, v)\<close> with \<open>u \<noteq> v\<close> and a walk that never
  leaves the keys of \<open>predecessor\<close> (no \<open>KeyError\<close>), \<open>find_negative_cycle_path\<close>
  returns a path: the reverse of the closed suffix of the walk
  \<open>v, u, predecessor[u], \<dots>\<close> truncated at its first repeated vertex.  Its first and
  last vertices are equal and its other vertices are pairwise distinct.
\<close>

theorem find_negative_cycle_path_closed_cycle:
  assumes "u \<noteq> v"
    and "find_negative_cycle_path predecessor (Some (u, v)) \<noteq> Inl KeyError"
  shows "\<exists>ws x path.
           find_negative_cycle_path predecessor (Some (u, v)) = Inr (Some path)
           \<and> truncated_walk predecessor u v ws x
           \<and> path = rev (closed_suffix (v # u # ws) x)
           \<and> hd path = last path \<and> distinct (butlast path) \<and> distinct (tl path)"
proof (cases "map_of predecessor u")
  case None
  with assms show ?thesis by (simp add: find_negative_cycle_path_Some)
next
  case (Some current0)
  show ?thesis
  proof (cases "cycle_loop predecessor [v, u] current0")
    case (Inl e)
    from cycle_loop_error [OF Inl] have "e = KeyError" .
    with assms Some Inl show ?thesis by (simp add: find_negative_cycle_path_Some)
  next
    case (Inr res)
    obtain cycle x where res: "res = (cycle, x)" by (cases res)
    from assms(1) have "distinct [v, u]" by auto
    from cycle_loop_walk [OF Inr [unfolded res] this Some] obtain ws where
      ws: "cycle = [v, u] @ ws" "distinct cycle" "x \<in> set cycle"
          "pred_chain predecessor (u # ws @ [x])" by blast
    from ws have walk: "truncated_walk predecessor u v ws x"
      by (simp add: truncated_walk_def)
    from assms(1) Some Inr res ws(1)
    have path: "find_negative_cycle_path predecessor (Some (u, v))
                  = Inr (Some (rev (closed_suffix (v # u # ws) x)))"
      by (simp add: find_negative_cycle_path_Some)
    from ws(1,2,3) have "distinct (v # u # ws)" "x \<in> set (v # u # ws)" by simp_all
    from closed_suffix_shape [OF this] path walk show ?thesis by blast
  qed
qed

theorem find_negative_cycle_path_closed_cycle_witness:
  "(''D'' :: string) \<noteq> ''E''
   \<and> find_negative_cycle_path
         [(''D'', ''C''), (''C'', ''B''), (''B'', ''A''), (''A'', ''C'')] (Some (''D'', ''E''))
       \<noteq> Inl KeyError
   \<and> find_negative_cycle_path
         [(''D'', ''C''), (''C'', ''B''), (''B'', ''A''), (''A'', ''C'')] (Some (''D'', ''E''))
       = Inr (Some [''C'', ''A'', ''B'', ''C''])
   \<and> (\<exists>ws x path.
          find_negative_cycle_path
            [(''D'', ''C''), (''C'', ''B''), (''B'', ''A''), (''A'', ''C'')] (Some (''D'', ''E''))
          = Inr (Some path)
          \<and> truncated_walk [(''D'', ''C''), (''C'', ''B''), (''B'', ''A''), (''A'', ''C'')]
                ''D'' ''E'' ws x
          \<and> path = rev (closed_suffix (''E'' # ''D'' # ws) x)
          \<and> hd path = last path \<and> distinct (butlast path) \<and> distinct (tl path))"
proof -
  let ?pred = "[(''D'', ''C''), (''C'', ''B''), (''B'', ''A''), (''A'', ''C'')] :: (string, string) pydict"
  have h1: "(''D'' :: string) \<noteq> ''E''" by simp
  have ev: "find_negative_cycle_path ?pred (Some (''D'', ''E'')) = Inr (Some [''C'', ''A'', ''B'', ''C''])"
    by (simp add: find_negative_cycle_path_def getitem0_def)
  then have h2: "find_negative_cycle_path ?pred (Some (''D'', ''E'')) \<noteq> Inl KeyError" by simp
  from find_negative_cycle_path_closed_cycle [OF h1 h2] h1 h2 ev show ?thesis by blast
qed

text \<open>
  Claim C5 as it is stated fails for a negative edge from a vertex to itself: the loop
  starts from \<open>cycle = [v, u]\<close> without comparing \<open>u\<close> and \<open>v\<close>, and the path returned
  for the edge \<open>(USD, USD)\<close> repeats the vertex three times, where the walk truncated at
  its first repeated vertex is \<open>USD, USD\<close>.
\<close>

theorem find_negative_cycle_path_self_loop:
  "find_negative_cycle_path [(''USD'', ''USD'')] (Some (''USD'', ''USD''))
     = Inr (Some [''USD'', ''USD'', ''USD''])
   \<and> \<not> distinct (butlast [''USD'', ''USD'', ''USD''])
   \<and> [''USD'', ''USD'', ''USD''] \<noteq> rev (closed_suffix [''USD''] ''USD'')"
  by (simp add: find_negative_cycle_path_def getitem0_def closed_suffix_def)

section \<open>The evaluation of the profit\<close>

text \<open>
  A leg whose pair is in the store neither directly nor reversed: the \<open>else\<close> branch
  prints the gap and falls through to \<open>curr_money *= curr_rate\<close>.  If no earlier leg
  has set \<open>curr_rate\<close> the name is unbound and the statement raises; otherwise the
  amount is multiplied by the rate of the leg before.
\<close>

lemma leg_step_missing_unbound:
  "map_of qd curr_pair = None \<Longrightarrow> map_of qd (snd curr_pair, fst curr_pair) = None \<Longrightarrow>
   leg_step qd curr_pair (curr_money, None)
     = (Some UnboundLocalError, (curr_money, None), [Could_not_find_price curr_pair])"
  by (simp add: leg_step_def lookup_rate_def)

lemma leg_step_missing_bound:
  "map_of qd curr_pair = None \<Longrightarrow> map_of qd (snd curr_pair, fst curr_pair) = None \<Longrightarrow>
   leg_step qd curr_pair (curr_money, Some curr_rate)
     = (None, (curr_money * curr_rate, Some curr_rate),
        [Could_not_find_price curr_pair, Leg curr_pair curr_rate (curr_money * curr_rate)])"
  by (simp add: leg_step_def lookup_rate_def)

text \<open>The path \<open>USD, EUR, GBP, USD\<close> as the reconstruction returns it.\<close>

lemma path_USD_EUR_GBP:
  "find_negative_cycle_path [(''GBP'', ''EUR''), (''EUR'', ''USD'')] (Some (''GBP'', ''USD''))
     = Inr (Some [''USD'', ''EUR'', ''GBP'', ''USD''])"
  by (simp add: find_negative_cycle_path_def getitem0_def)

text \<open>
  Claim C1.  The evaluator does not skip a leg without rate.  With an empty store (every
  quote evicted since the graph was built) the first leg raises \<open>UnboundLocalError\<close>
  after printing the gap; with the rate 2 for \<open>USD, EUR\<close> only, the two legs without
  rate are each multiplied by the stale rate 2: the amount goes from 200 to 400 and to 800
  where it should stay at 200.
\<close>

theorem identify_arbitrage_missing_rate:
  "identify_arbitrage
     (\<lambda>graph. ((), [(''GBP'', ''EUR''), (''EUR'', ''USD'')], Some (''GBP'', ''USD'')))
     \<lparr>quotes_dict = ([] :: rat quotes), quotes_queue = [], current_path = None,
      quotes_graph = ([] :: int edge list)\<rparr>
   = (Some UnboundLocalError,
      \<lparr>quotes_dict = [], quotes_queue = [],
       current_path = Some [''USD'', ''EUR'', ''GBP'', ''USD''], quotes_graph = []\<rparr>,
      [Arbitrage_opportunity, Could_not_find_price (''USD'', ''EUR'')])
   \<and> identify_arbitrage
     (\<lambda>graph. ((), [(''GBP'', ''EUR''), (''EUR'', ''USD'')], Some (''GBP'', ''USD'')))
     \<lparr>quotes_dict = [((''USD'', ''EUR''), (2 :: rat, Float_seconds 1))], quotes_queue = [],
      current_path = None, quotes_graph = ([] :: int edge list)\<rparr>
   = (None,
      \<lparr>quotes_dict = [((''USD'', ''EUR''), (2, Float_seconds 1))], quotes_queue = [],
       current_path = Some [''USD'', ''EUR'', ''GBP'', ''USD''], quotes_graph = []\<rparr>,
      [Arbitrage_opportunity,
       Leg (''USD'', ''EUR'') 2 200,
       Could_not_find_price (''EUR'', ''GBP''), Leg (''EUR'', ''GBP'') 2 400,
       Could_not_find_price (''GBP'', ''USD''), Leg (''GBP'', ''USD'') 2 800])"
  by (simp add: identify_arbitrage_def path_USD_EUR_GBP leg_step_def lookup_rate_def)

section \<open>The construction of the price graph\<close>

text \<open>
  One turn of the loop of \<open>update_graph\<close> on a quote with a datetime timestamp: a quote
  of age at most 1.5 seconds adds its two edges, an older one adds nothing, and a price
  outside the domain of the logarithm makes the whole construction raise.
\<close>

lemma graph_loop_fresh:
  assumes "of_int (utcnow i - d) / 1000000 \<le> (3 / 2 :: rat)" and "log10 price = Inr log_price"
  shows "graph_loop log10 utcnow i new_graph ((iso_pair, (price, Datetime d)) # rest)
           = graph_loop log10 utcnow (Suc i)
               (new_graph @ [(fst iso_pair, snd iso_pair, - log_price),
                             (snd iso_pair, fst iso_pair, log_price)]) rest"
  using assms by (simp add: add_edge_def)

lemma graph_loop_stale:
  assumes "of_int (utcnow i - d) / 1000000 > (3 / 2 :: rat)"
  shows "graph_loop log10 utcnow i new_graph ((iso_pair, (price, Datetime d)) # rest)
           = graph_loop log10 utcnow (Suc i) new_graph rest"
  using assms by simp

lemma graph_loop_domain_error:
  assumes "of_int (utcnow i - d) / 1000000 \<le> (3 / 2 :: rat)" and "log10 price = Inl e"
  shows "graph_loop log10 utcnow i new_graph ((iso_pair, (price, Datetime d)) # rest) = Inl e"
  using assms by simp

lemma graph_loop_float:
  "graph_loop log10 utcnow i new_graph ((iso_pair, (price, Float_seconds seconds)) # rest)
     = Inl TypeError"
  by simp

text \<open>
  On a snapshot whose timestamps are datetimes and whose fresh prices have a logarithm,
  the graph built is the list of the edges of the fresh quotes, two for each.
\<close>

lemma graph_loop_datetimes:
  assumes "\<forall>entry \<in> set quotes. \<exists>d. snd (snd entry) = Datetime d"
    and "\<forall>entry \<in> set quotes. log10 (fst (snd entry)) = Inr (lg (fst (snd entry)))"
  shows "graph_loop log10 utcnow i new_graph quotes
           = Inr (new_graph @ fresh_edges lg utcnow i quotes)"
  using assms
proof (induction quotes arbitrary: i new_graph)
  case Nil
  then show ?case by simp
next
  case (Cons x rest)
  obtain k p t where x: "x = (k, (p, t))" by (cases x) auto
  from Cons.prems(1) x obtain d where t: "t = Datetime d" by auto
  from Cons.prems(2) x have lg: "log10 p = Inr (lg p)" by simp
  from Cons.prems have rest:
    "\<forall>entry \<in> set rest. \<exists>d. snd (snd entry) = Datetime d"
    "\<forall>entry \<in> set rest. log10 (fst (snd entry)) = Inr (lg (fst (snd entry)))" by simp_all
  note IH = Cons.IH [OF rest]
  show ?case
  proof (cases "of_int (utcnow i - d) / 1000000 \<le> (3 / 2 :: rat)")
    case True
    then have "\<not> is_stale (utcnow i) t" by (simp add: is_stale_def t)
    with True x t lg IH show ?thesis
      by (simp add: add_edge_def quote_edges_def)
  next
    case False
    then have "is_stale (utcnow i) t" by (simp add: is_stale_def t)
    with False x t IH show ?thesis by simp
  qed
qed

text \<open>
  Claim C8.  The snapshots that reach \<open>update_graph\<close> hold the float timestamps of the
  codec.  On the first quote of such a snapshot \<open>datetime.utcnow() - timestamp\<close> raises
  \<open>TypeError\<close>; the exception is caught by the loop, the snapshot is dropped, no edge is
  added for any quote and the active graph stays as it was.
\<close>

theorem update_graph_float_timestamp:
  "update_graph_step log10 shortest_paths utcnow
     (self\<lparr>quotes_queue := ((iso_pair, (price, Float_seconds seconds)) # rest) # waiting\<rparr>)
   = (Some TypeError, self\<lparr>quotes_queue := waiting\<rparr>, [])"
  by (simp add: update_graph_step_def)

section \<open>The decoding of quote records\<close>

text \<open>
  \<open>parse_quote\<close> reads the first 18 bytes of a chunk only.  On a chunk shorter than 18
  bytes it raises (\<open>ValueError\<close> from \<open>frombytes\<close> or \<open>IndexError\<close> from \<open>a[0]\<close>, unless
  the decoding of the pair has raised before); on a chunk of at least 18 bytes whose
  first six bytes are ASCII it returns the pair, the price and the timestamp.
\<close>

lemma list_slice_take18: "j \<le> 18 \<Longrightarrow> list_slice i j (take 18 quote) = list_slice i j quote"
  by (simp add: list_slice_def drop_take min_def)

lemma parse_quote_take18: "parse_quote host (take 18 quote) = parse_quote host quote"
proof -
  have "list_slice 0 3 (take 18 quote) = list_slice 0 3 quote"
    "list_slice 3 6 (take 18 quote) = list_slice 3 6 quote"
    "list_slice 6 10 (take 18 quote) = list_slice 6 10 quote"
    "list_slice 10 18 (take 18 quote) = list_slice 10 18 quote"
    by (simp_all add: list_slice_take18)
  then show ?thesis unfolding parse_quote_def by (simp only:)
qed

lemma deserialize_micros_short:
  assumes "length bs < 8"
  shows "\<exists>e. deserialize_micros host bs = Inl e"
proof (cases "length bs mod 8 = 0")
  case True
  with assms have "bs = []" by simp
  then show ?thesis
    by (simp add: deserialize_micros_def frombytes_def byteswap_def getitem0_def)
next
  case False
  then show ?thesis by (simp add: deserialize_micros_def frombytes_def)
qed

lemma parse_quote_short:
  assumes "length quote < 18"
  shows "\<exists>e. parse_quote host quote = Inl e"
proof -
  from assms have "length (list_slice 10 18 quote) < 8" by (simp add: list_slice_def)
  from deserialize_micros_short [OF this] obtain e where
    "deserialize_micros host (list_slice 10 18 quote) = Inl e" by blast
  then have "deserialize_utcdatetime host (list_slice 10 18 quote) = Inl e"
    by (simp add: deserialize_utcdatetime_def)
  then show ?thesis
    by (simp add: parse_quote_def split: sum.splits)
qed

lemma frombytes_one_item:
  "length bs = itemsize \<Longrightarrow> 0 < itemsize \<Longrightarrow> frombytes itemsize bs = Inr [bs]"
  by (simp add: frombytes_def)

lemma parse_quote_Inr:
  assumes "18 \<le> length quote" and "\<forall>b \<in> set (take 6 quote). unat b < 128"
  shows "parse_quote host quote =
           Inr ((map (\<lambda>b. char_of (unat b)) (list_slice 0 3 quote),
                 map (\<lambda>b. char_of (unat b)) (list_slice 3 6 quote)),
                (word_of_nat (native_value host (list_slice 6 10 quote)),
                 Float_seconds (of_nat (native_value host (rev (list_slice 10 18 quote))) / 1000000)))"
proof -
  have "take 6 quote = take 3 quote @ take 3 (drop 3 quote)"
    using take_add [of 3 3 quote] by simp
  with assms(2) have ascii: "\<forall>b \<in> set (list_slice 0 3 quote). unat b < 128"
    "\<forall>b \<in> set (list_slice 3 6 quote). unat b < 128"
    by (simp_all add: list_slice_def)
  from assms(1) have len: "length (list_slice 6 10 quote) = 4" "length (list_slice 10 18 quote) = 8"
    by (simp_all add: list_slice_def)
  from len(1) have price: "deserialize_price host (list_slice 6 10 quote)
                     = Inr (word_of_nat (native_value host (list_slice 6 10 quote)))"
    by (simp add: deserialize_price_def frombytes_one_item getitem0_def)
  from len(2) have micros: "deserialize_micros host (list_slice 10 18 quote)
                     = Inr (native_value host (rev (list_slice 10 18 quote)))"
    by (simp add: deserialize_micros_def frombytes_one_item getitem0_def byteswap_def)
  from ascii price micros show ?thesis
    by (simp add: parse_quote_def decode_ascii_def deserialize_utcdatetime_def
        MICROS_PER_SECOND_def)
qed

text \<open>
  \<open>parse_quotes\<close> assigns the entries in the order of the chunks: a pair keeps the entry
  of the last chunk that decodes to it.
\<close>

lemma parse_quotes_loop_keeps:
  "parse_quotes_loop host d chunks = Inr d' \<Longrightarrow>
   \<forall>c \<in> set chunks. \<forall>v. parse_quote host c \<noteq> Inr (k, v) \<Longrightarrow> map_of d' k = map_of d k"
proof (induction chunks arbitrary: d)
  case Nil
  then show ?case by simp
next
  case (Cons c rest)
  show ?case
  proof (cases "parse_quote host c")
    case (Inl e)
    with Cons.prems(1) show ?thesis by simp
  next
    case (Inr kv)
    obtain k0 v0 where kv: "kv = (k0, v0)" by (cases kv)
    from Cons.prems(2) have "parse_quote host c \<noteq> Inr (k, v0)"
      by (simp del: split_paired_All)
    with Inr kv have ne: "k0 \<noteq> k" by auto
    from Inr kv Cons.prems(1)
    have "parse_quotes_loop host (AList.update k0 v0 d) rest = Inr d'" by simp
    moreover from Cons.prems(2) have "\<forall>c \<in> set rest. \<forall>v. parse_quote host c \<noteq> Inr (k, v)"
      by simp
    ultimately have "map_of d' k = map_of (AList.update k0 v0 d) k" by (rule Cons.IH)
    with ne show ?thesis by (simp add: update_conv')
  qed
qed

lemma parse_quotes_loop_last:
  "parse_quotes_loop host d (before @ quote # after) = Inr d' \<Longrightarrow>
   parse_quote host quote = Inr (k, v) \<Longrightarrow>
   \<forall>c \<in> set after. \<forall>v'. parse_quote host c \<noteq> Inr (k, v') \<Longrightarrow> map_of d' k = Some v"
proof (induction before arbitrary: d)
  case Nil
  from Nil.prems(1,2) have "parse_quotes_loop host (AList.update k v d) after = Inr d'" by simp
  from parse_quotes_loop_keeps [OF this Nil.prems(3)] show ?case by (simp add: update_conv')
next
  case (Cons c rest)
  show ?case
  proof (cases "parse_quote host c")
    case (Inl e)
    with Cons.prems(1) show ?thesis by simp
  next
    case (Inr kv)
    obtain k0 v0 where kv: "kv = (k0, v0)" by (cases kv)
    from Inr kv Cons.prems(1)
    have "parse_quotes_loop host (AList.update k0 v0 d) (rest @ quote # after) = Inr d'" by simp
    from Cons.IH [OF this Cons.prems(2,3)] show ?thesis .
  qed
qed

text \<open>
  \<open>split_quotes\<close> hands the trailing bytes of a datagram to \<open>parse_quotes\<close> as a last
  chunk.  If that chunk is shorter than 18 bytes \<open>parse_quotes\<close> raises, at the latest
  when it reaches it, and the turn of \<open>receive_updates\<close> ends in its \<open>except\<close> clause
  with the subscriber unchanged.  If it has 18 bytes or more it is decoded as a record.
\<close>

lemma split_quotes_partial:
  assumes "length data mod 32 \<noteq> 0"
  shows "split_quotes data =
           map (\<lambda>i. list_slice (i * 32) (i * 32 + 32) data) [0..<length data div 32]
           @ [drop (length data div 32 * 32) data]"
  using assms by (simp add: split_quotes_def Let_def)

lemma length_partial: "length (drop (length data div 32 * 32) data) = length data mod 32"
  by (simp add: minus_div_mult_eq_mod)

lemma length_full_chunk:
  assumes "i < length data div 32"
  shows "length (list_slice (i * 32) (i * 32 + 32) data) = 32"
proof -
  from assms have "Suc i \<le> length data div 32" by simp
  then have "Suc i * 32 \<le> length data div 32 * 32" by (rule mult_le_mono1)
  also have "\<dots> \<le> length data" by simp
  finally have "i * 32 + 32 \<le> length data" by simp
  then show ?thesis by (simp add: list_slice_def)
qed

lemma parse_quotes_loop_fails_at_last:
  "parse_quote host c = Inl e \<Longrightarrow> \<exists>e'. parse_quotes_loop host d (chunks @ [c]) = Inl e'"
proof (induction chunks arbitrary: d)
  case Nil
  then show ?case by simp
next
  case (Cons x rest)
  show ?case
  proof (cases "parse_quote host x")
    case (Inl e0)
    then show ?thesis by simp
  next
    case (Inr kv)
    obtain k v where "kv = (k, v)" by (cases kv)
    with Inr Cons.IH [OF Cons.prems] show ?thesis by simp
  qed
qed

lemma parse_quotes_loop_succeeds:
  "\<forall>c \<in> set chunks. \<exists>r. parse_quote host c = Inr r \<Longrightarrow>
   \<exists>d'. parse_quotes_loop host d chunks = Inr d'"
proof (induction chunks arbitrary: d)
  case Nil
  then show ?case by simp
next
  case (Cons x rest)
  from Cons.prems obtain kv where kv: "parse_quote host x = Inr kv" by auto
  obtain k v where "kv = (k, v)" by (cases kv)
  moreover from Cons.prems have "\<forall>c \<in> set rest. \<exists>r. parse_quote host c = Inr r" by simp
  ultimately show ?case using kv Cons.IH by simp
qed

lemma receive_updates_step_short_partial:
  assumes "0 < length data mod 32" and "length data mod 32 < 18"
  shows "\<exists>e. receive_updates_step host current_time data self = (Some e, self)"
proof -
  let ?partial = "drop (length data div 32 * 32) data"
  from assms(2) have "length ?partial < 18" by (simp only: length_partial)
  from parse_quote_short [OF this] obtain e where "parse_quote host ?partial = Inl e" by blast
  from parse_quotes_loop_fails_at_last [OF this] obtain e' where
    "parse_quotes_loop host []
       (map (\<lambda>i. list_slice (i * 32) (i * 32 + 32) data) [0..<length data div 32] @ [?partial])
     = Inl e'" by blast
  moreover from assms(1) have "length data mod 32 \<noteq> 0" by simp
  ultimately have "parse_quotes host (split_quotes data) = Inl e'"
    by (simp add: parse_quotes_def split_quotes_partial)
  then show ?thesis by (simp add: receive_updates_step_def)
qed

lemma parse_quotes_long_partial:
  assumes "18 \<le> length data mod 32"
    and "\<forall>c \<in> set (split_quotes data). \<forall>b \<in> set (take 6 c). unat b < 128"
  shows "\<exists>iso_pair entry parsed.
           parse_quote host (drop (length data div 32 * 32) data) = Inr (iso_pair, entry)
           \<and> parse_quotes host (split_quotes data) = Inr parsed
           \<and> map_of parsed iso_pair = Some entry"
proof -
  let ?partial = "drop (length data div 32 * 32) data"
  let ?fulls = "map (\<lambda>i. list_slice (i * 32) (i * 32 + 32) data) [0..<length data div 32]"
  from assms(1) have ne: "length data mod 32 \<noteq> 0" by simp
  then have split: "split_quotes data = ?fulls @ [?partial]" by (rule split_quotes_partial)
  have lp: "length ?partial = length data mod 32" by (rule length_partial)
  have long: "\<forall>c \<in> set (split_quotes data). 18 \<le> length c"
  proof
    fix c assume "c \<in> set (split_quotes data)"
    then have "c \<in> set ?fulls \<or> c = ?partial" unfolding split by auto
    then show "18 \<le> length c"
    proof
      assume "c \<in> set ?fulls"
      then obtain i where "i < length data div 32" "c = list_slice (i * 32) (i * 32 + 32) data"
        by auto
      then show ?thesis by (simp add: length_full_chunk)
    next
      assume "c = ?partial"
      with lp assms(1) show ?thesis by (simp del: length_drop)
    qed
  qed
  have ok: "\<forall>c \<in> set (split_quotes data). \<exists>r. parse_quote host c = Inr r"
  proof
    fix c assume c: "c \<in> set (split_quotes data)"
    with long assms(2) have "18 \<le> length c" "\<forall>b \<in> set (take 6 c). unat b < 128" by simp_all
    from parse_quote_Inr [OF this] show "\<exists>r. parse_quote host c = Inr r" by blast
  qed
  from parse_quotes_loop_succeeds [OF ok] obtain parsed where
    parsed: "parse_quotes host (split_quotes data) = Inr parsed"
    unfolding parse_quotes_def by blast
  have "?partial \<in> set (split_quotes data)" unfolding split by simp
  with ok obtain r where r: "parse_quote host ?partial = Inr r" by blast
  obtain iso_pair entry where ie: "r = (iso_pair, entry)" by (cases r)
  from parsed have "parse_quotes_loop host [] (?fulls @ ?partial # []) = Inr parsed"
    by (simp only: parse_quotes_def split append.simps)
  from parse_quotes_loop_last [OF this r [unfolded ie]]
  have "map_of parsed iso_pair = Some entry" by simp
  with r ie parsed show ?thesis by blast
qed

section \<open>Records of the feed and what the codec makes of them\<close>

text \<open>The definitions that the evaluation of the codec on a given record unfolds.\<close>

lemmas codec_defs = parse_quote_def list_slice_def decode_ascii_def deserialize_price_def
  deserialize_utcdatetime_def deserialize_micros_def frombytes_def getitem0_def byteswap_def
  native_value_def be_value_def MICROS_PER_SECOND_def char_of_def bit_0

lemma parse_EURUSD_at_2s:
  "parse_quote Little EURUSD_at_2s = Inr ((''EUR'', ''USD''), (0x3F800000, Float_seconds 2))"
  by (simp add: EURUSD_at_2s_def codec_defs)




text \<open>
  Claim C6, amended.  A record of 32 bytes whose first six bytes are ASCII is decoded
  into the two currency codes of bytes 0 to 2 and 3 to 5, the price whose bit pattern is
  the value of bytes 6 to 9 in the byte order of the host, and the microseconds that are
  the value of bytes 10 to 17 in the opposite byte order, divided by a million.  On a
  little-endian host the price is therefore read least significant byte first and the
  microseconds most significant byte first.  Bytes 18 to 31 do not matter.
\<close>

theorem parse_quote_layout:
  assumes "length quote = 32" and "\<forall>b \<in> set (take 6 quote). unat b < 128"
  shows "parse_quote host quote =
           Inr ((map (\<lambda>b. char_of (unat b)) (list_slice 0 3 quote),
                 map (\<lambda>b. char_of (unat b)) (list_slice 3 6 quote)),
                (word_of_nat (native_value host (list_slice 6 10 quote)),
                 Float_seconds (of_nat (native_value host (rev (list_slice 10 18 quote))) / 1000000)))
         \<and> native_value Little (list_slice 6 10 quote) = be_value (rev (list_slice 6 10 quote))
         \<and> native_value Little (rev (list_slice 10 18 quote)) = be_value (list_slice 10 18 quote)
         \<and> parse_quote host (take 18 quote @ reserved) = parse_quote host quote"
proof -
  from assms(1) have long: "18 \<le> length quote" by simp
  have "parse_quote host (take 18 quote @ reserved)
          = parse_quote host (take 18 (take 18 quote @ reserved))"
    by (simp only: parse_quote_take18)
  also from long have "take 18 (take 18 quote @ reserved) = take 18 quote" by simp
  also have "parse_quote host (take 18 quote) = parse_quote host quote"
    by (rule parse_quote_take18)
  finally have "parse_quote host (take 18 quote @ reserved) = parse_quote host quote" .
  with parse_quote_Inr [OF long assms(2), of host] show ?thesis
    by (simp add: native_value_def)
qed

theorem parse_quote_layout_witness:
  "length EURUSD_one = 32
   \<and> parse_quote Little EURUSD_one = Inr ((''EUR'', ''USD''), (0x803F, Float_seconds 1))"
proof -
  have h1: "length EURUSD_one = 32" by (simp add: EURUSD_one_def)
  have h2: "\<forall>b \<in> set (take 6 EURUSD_one). unat b < 128" by (simp add: EURUSD_one_def)
  from parse_quote_layout [OF h1 h2, of Little "[]"]
  have "parse_quote Little EURUSD_one = Inr ((''EUR'', ''USD''), (0x803F, Float_seconds 1))"
    by (simp add: EURUSD_one_def list_slice_def native_value_def be_value_def char_of_def bit_0)
  with h1 show ?thesis by blast
qed

text \<open>
  Claim C6 as it is stated fails: \<open>deserialize_price\<close> does not swap the bytes, so on a
  little-endian host the bytes \<open>3F 80 00 00\<close> (the big-endian float 1.0) give the bit
  pattern \<open>0000803F\<close>; and on a big-endian host, where the price is read big-endian,
  the swap in \<open>deserialize_utcdatetime\<close> makes the microseconds little-endian.
\<close>

theorem parse_quote_price_not_big_endian:
  "parse_quote Little EURUSD_one = Inr ((''EUR'', ''USD''), (0x803F, Float_seconds 1))
   \<and> (0x803F :: 32 word) \<noteq> word_of_nat (be_value [0x3F, 0x80, 0, 0])
   \<and> parse_quote Big EURUSD_one
       = Inr ((''EUR'', ''USD''), (0x3F800000, Float_seconds (4630279859564707840 / 1000000)))
   \<and> (4630279859564707840 :: nat) \<noteq> be_value [0, 0, 0, 0, 0, 0x0F, 0x42, 0x40]"
  by (simp add: EURUSD_one_def codec_defs)

section \<open>Datagrams with a trailing partial record\<close>

lemma split_EURUSD_at_2s: "split_quotes EURUSD_at_2s = [EURUSD_at_2s]"
  by (simp add: EURUSD_at_2s_def split_quotes_def list_slice_def upt_conv_Cons)

lemma split_EURUSD_GBPUSD:
  "split_quotes (EURUSD_at_2s @ GBPUSD_18_bytes) = [EURUSD_at_2s, GBPUSD_18_bytes]"
  by (simp add: EURUSD_at_2s_def GBPUSD_18_bytes_def split_quotes_def list_slice_def upt_conv_Cons)

lemma parse_GBPUSD_18_bytes:
  "parse_quote Little GBPUSD_18_bytes = Inr ((''GBP'', ''USD''), (0x3F800000, Float_seconds 1))"
  by (simp add: GBPUSD_18_bytes_def codec_defs)

text \<open>
  Claim C7.  A trailing partial record is not skipped: \<open>split_quotes\<close> hands it to the
  decoder as a chunk of its own.  For the datagram made of the full record \<open>EURUSD_at_2s\<close>
  and one more byte, the full record alone decodes, but \<open>parse_quote\<close> raises
  \<open>IndexError\<close> on the chunk of one byte, \<open>parse_quotes\<close> raises with it, and the handler
  of \<open>receive_updates\<close> drops the whole datagram: the quote for \<open>EUR, USD\<close> is not merged
  and the store stays empty.  The loop does go on with the next datagram.  A trailing
  chunk of 18 bytes is not skipped either: it is decoded and merged as a quote.
\<close>

theorem trailing_partial_record:
  "length (EURUSD_at_2s @ [0]) = 33
   \<and> parse_quotes Little (split_quotes EURUSD_at_2s)
       = Inr [((''EUR'', ''USD''), (0x3F800000, Float_seconds 2))]
   \<and> split_quotes (EURUSD_at_2s @ [0]) = [EURUSD_at_2s, [0]]
   \<and> parse_quotes Little (split_quotes (EURUSD_at_2s @ [0])) = Inl IndexError
   \<and> receive_updates_step Little current_time (EURUSD_at_2s @ [0]) idle_subscriber
       = (Some IndexError, idle_subscriber)
   \<and> map_of (quotes_dict (snd (receive_updates_step Little current_time (EURUSD_at_2s @ [0])
                                 idle_subscriber)))
        (''EUR'', ''USD'')
       = None
   \<and> receive_updates Little
         [(current_time, EURUSD_at_2s @ [0]), (next_time, EURUSD_at_2s)] idle_subscriber
       = ([Some IndexError, Some TypeError],
          \<lparr>quotes_dict = [((''EUR'', ''USD''), (0x3F800000, Float_seconds 2))],
           quotes_queue = [[((''EUR'', ''USD''), (0x3F800000, Float_seconds 2))]],
           current_path = None, quotes_graph = []\<rparr>)
   \<and> length GBPUSD_18_bytes = 18
   \<and> split_quotes (EURUSD_at_2s @ GBPUSD_18_bytes) = [EURUSD_at_2s, GBPUSD_18_bytes]
   \<and> parse_quotes Little (split_quotes (EURUSD_at_2s @ GBPUSD_18_bytes))
       = Inr [((''EUR'', ''USD''), (0x3F800000, Float_seconds 2)),
              ((''GBP'', ''USD''), (0x3F800000, Float_seconds 1))]
   \<and> quotes_dict (snd (receive_updates_step Little current_time
                          (EURUSD_at_2s @ GBPUSD_18_bytes) idle_subscriber))
       = [((''EUR'', ''USD''), (0x3F800000, Float_seconds 2)),
          ((''GBP'', ''USD''), (0x3F800000, Float_seconds 1))]"
proof -
  have split: "split_quotes (EURUSD_at_2s @ [0]) = [EURUSD_at_2s, [0]]"
    by (simp add: EURUSD_at_2s_def split_quotes_def list_slice_def upt_conv_Cons)
  have last: "parse_quote Little [0] = Inl IndexError" by (simp add: codec_defs)
  have one: "parse_quotes Little (split_quotes EURUSD_at_2s)
       = Inr [((''EUR'', ''USD''), (0x3F800000, Float_seconds 2))]"
    by (simp add: split_EURUSD_at_2s parse_quotes_def parse_EURUSD_at_2s)
  have short: "parse_quotes Little (split_quotes (EURUSD_at_2s @ [0])) = Inl IndexError"
    by (simp only: split parse_quotes_def parse_quotes_loop.simps parse_EURUSD_at_2s last
        sum.case prod.case)
  then have step: "receive_updates_step Little current_time (EURUSD_at_2s @ [0]) idle_subscriber
               = (Some IndexError, idle_subscriber)"
    by (simp add: receive_updates_step_def)
  have long: "parse_quotes Little (split_quotes (EURUSD_at_2s @ GBPUSD_18_bytes))
       = Inr [((''EUR'', ''USD''), (0x3F800000, Float_seconds 2)),
              ((''GBP'', ''USD''), (0x3F800000, Float_seconds 1))]"
    by (simp add: split_EURUSD_GBPUSD parse_quotes_def parse_EURUSD_at_2s parse_GBPUSD_18_bytes)
  have merged: "quotes_dict (snd (receive_updates_step Little current_time
                          (EURUSD_at_2s @ GBPUSD_18_bytes) idle_subscriber))
       = [((''EUR'', ''USD''), (0x3F800000, Float_seconds 2)),
          ((''GBP'', ''USD''), (0x3F800000, Float_seconds 1))]"
    by (simp add: receive_updates_step_def long update_quotes_dict_def remove_stale_quotes_def
        idle_subscriber_def)
  have len1: "length (EURUSD_at_2s @ [0]) = 33" by (simp add: EURUSD_at_2s_def)
  have len2: "length GBPUSD_18_bytes = 18" by (simp add: GBPUSD_18_bytes_def)
  have empty: "map_of (quotes_dict (snd (receive_updates_step Little current_time
                  (EURUSD_at_2s @ [0]) idle_subscriber))) (''EUR'', ''USD'') = None"
    unfolding step by (simp add: idle_subscriber_def)
  have step2: "receive_updates_step Little next_time EURUSD_at_2s idle_subscriber
       = (Some TypeError,
          \<lparr>quotes_dict = [((''EUR'', ''USD''), (0x3F800000, Float_seconds 2))],
           quotes_queue = [[((''EUR'', ''USD''), (0x3F800000, Float_seconds 2))]],
           current_path = None, quotes_graph = []\<rparr>)"
    by (simp add: receive_updates_step_def one update_quotes_dict_def remove_stale_quotes_def
        idle_subscriber_def)
  have loop: "receive_updates Little
         [(current_time, EURUSD_at_2s @ [0]), (next_time, EURUSD_at_2s)] idle_subscriber
       = ([Some IndexError, Some TypeError],
          \<lparr>quotes_dict = [((''EUR'', ''USD''), (0x3F800000, Float_seconds 2))],
           quotes_queue = [[((''EUR'', ''USD''), (0x3F800000, Float_seconds 2))]],
           current_path = None, quotes_graph = []\<rparr>)"
    by (simp only: receive_updates.simps step step2 prod.case)
  from len1 one split short step empty loop len2 split_EURUSD_GBPUSD long merged
  show ?thesis by blast
qed

section \<open>The eviction in the running subscriber\<close>

text \<open>
  One turn of \<open>receive_updates\<close> of a subscriber that has not received anything yet, on
  a datagram of one record: the record is merged and the snapshot pushed, and then
  \<open>remove_stale_quotes\<close> raises whatever the clock shows.
\<close>

text \<open>
  Claim C3.  The store that the subscriber really holds has the timestamps of
  \<open>deserialize_utcdatetime\<close>, which are floats.  On such an entry
  \<open>current_time - timestamp\<close> raises \<open>TypeError\<close> in the first loop of
  \<open>remove_stale_quotes\<close>: the call removes nothing, whatever the age of the entries.
  So the quote of the record \<open>EURUSD_at_2s\<close>, once received, stays in the store at every
  later time.
\<close>

theorem remove_stale_quotes_float_timestamp:
  "remove_stale_quotes current_time
     (self\<lparr>quotes_dict := (iso_pair, (price, Float_seconds seconds)) # rest\<rparr>)
   = (Inl TypeError, self\<lparr>quotes_dict := (iso_pair, (price, Float_seconds seconds)) # rest\<rparr>)
   \<and> receive_updates_step Little now EURUSD_at_2s idle_subscriber
     = (Some TypeError,
        \<lparr>quotes_dict = [((''EUR'', ''USD''), (0x3F800000, Float_seconds 2))],
         quotes_queue = [[((''EUR'', ''USD''), (0x3F800000, Float_seconds 2))]],
         current_path = None, quotes_graph = []\<rparr>)"
  by (simp add: receive_updates_step_def split_EURUSD_at_2s parse_quotes_def
      parse_EURUSD_at_2s update_quotes_dict_def remove_stale_quotes_def idle_subscriber_def)

end
